theory Spec2Isabelle
  imports Main
begin

section \<open>The SMT portfolio (libsolidity/formal/SMTPortfolio.cpp)\<close>

text \<open>
  The results a solver can give. The declaration of the enumeration is in a header that is
  missing; \<open>SMTPortfolio::check\<close> names \<open>UNKNOWN\<close>, \<open>UNSATISFIABLE\<close> and \<open>CONFLICTING\<close>
  and its comments name SAT and ERROR.
\<close>

datatype CheckResult = SATISFIABLE | UNSATISFIABLE | UNKNOWN | CONFLICTING | ERROR

text \<open>
  \<open>check\<close> compares results with \<open><=\<close>, that is by the position of the enumerators in
  the missing declaration. The position is a parameter \<open>ord\<close> of the model; the order
  SATISFIABLE, UNSATISFIABLE, UNKNOWN, CONFLICTING, ERROR is the instance used for evaluation.
\<close>

fun CheckResult_position :: "CheckResult \<Rightarrow> nat" where
  "CheckResult_position SATISFIABLE = 0"
| "CheckResult_position UNSATISFIABLE = 1"
| "CheckResult_position UNKNOWN = 2"
| "CheckResult_position CONFLICTING = 3"
| "CheckResult_position ERROR = 4"

text \<open>
  What the comments of \<open>check\<close> say of the comparison \<open>result <= UNSATISFIABLE\<close>:
  it holds for SAT and UNSAT only.
\<close>

definition sat_unsat_first :: "(CheckResult \<Rightarrow> nat) \<Rightarrow> bool" where
  "sat_unsat_first ord =
     (\<forall>r. (ord r \<le> ord UNSATISFIABLE) = (r = SATISFIABLE \<or> r = UNSATISFIABLE))"

text \<open>A contained solver, as far as \<open>check\<close> uses it: its answer to a list of expressions.\<close>

type_synonym 'e solver = "'e list \<Rightarrow> CheckResult \<times> string list"

text \<open>
  The loop of \<open>SMTPortfolio::check\<close> over \<open>m_solvers\<close>, with the locals \<open>lastResult\<close> and
  \<open>finalValues\<close> as arguments. The third component counts the solvers whose \<open>check\<close> has
  been called, which is how the \<open>break\<close> shows.
\<close>

fun check_loop ::
  "(CheckResult \<Rightarrow> nat) \<Rightarrow> 'e list \<Rightarrow> CheckResult \<Rightarrow> string list \<Rightarrow> nat \<Rightarrow> 'e solver list
     \<Rightarrow> CheckResult \<times> string list \<times> nat" where
  "check_loop ord es lastResult finalValues n [] = (lastResult, finalValues, n)"
| "check_loop ord es lastResult finalValues n (s # solvers) =
     (case s es of (result, values) \<Rightarrow>
        if ord result \<le> ord UNSATISFIABLE then
          if lastResult = UNKNOWN then check_loop ord es result values (Suc n) solvers
          else if lastResult \<noteq> result then (CONFLICTING, finalValues, Suc n)
          else check_loop ord es lastResult finalValues (Suc n) solvers
        else check_loop ord es lastResult finalValues (Suc n) solvers)"

definition check :: "(CheckResult \<Rightarrow> nat) \<Rightarrow> 'e solver list \<Rightarrow> 'e list \<Rightarrow> CheckResult \<times> string list" where
  "check ord m_solvers es =
     (case check_loop ord es UNKNOWN [] 0 m_solvers of (lastResult, finalValues, n) \<Rightarrow>
        (lastResult, finalValues))"

definition check_queried :: "(CheckResult \<Rightarrow> nat) \<Rightarrow> 'e solver list \<Rightarrow> 'e list \<Rightarrow> nat" where
  "check_queried ord m_solvers es = snd (snd (check_loop ord es UNKNOWN [] 0 m_solvers))"

text \<open>A definite answer is SAT or UNSAT.\<close>

definition definite :: "CheckResult \<times> string list \<Rightarrow> bool" where
  "definite a = (fst a = SATISFIABLE \<or> fst a = UNSATISFIABLE)"


section \<open>The constructor of ContractCompiler (libsolidity/codegen/ContractCompiler.h)\<close>

text \<open>
  The constructor takes the CompilerContext by reference and keeps the reference in
  \<open>m_context\<close>, so contexts live in a store, at addresses. The class CompilerContext is
  declared in CompilerContext.h, which is missing: the store is polymorphic in
  the type \<open>'c\<close> of contexts, and the two members the constructor uses are parameters, the
  accessor \<open>evmVersion\<close> and the constructor \<open>CompilerContext\<close> of an EVM version and a
  pointer to a runtime context (\<open>None\<close> for \<open>nullptr\<close>).
\<close>

type_synonym addr = nat

text \<open>
  The members the constructor initialises. \<open>m_runtimeCompiler\<close> is a pointer to another
  compiler, of which only the \<open>m_context\<close> reference is read here.
\<close>

datatype ContractCompiler =
  ContractCompiler (m_optimise: bool) (m_runtimeCompiler: "ContractCompiler option") (m_context: addr)

text \<open>
  \<open>m_context = CompilerContext(_context.evmVersion(),
      _runtimeCompiler ? &_runtimeCompiler->m_context : nullptr)\<close>:
  the right-hand side is built from the context as it is before the assignment, and the
  assignment through the reference writes the store at \<open>_context\<close>. The parameters
  \<open>_runtimeCompiler\<close>, \<open>_context\<close> and \<open>_optimise\<close> are written with a leading p.
\<close>

definition ContractCompiler_new ::
  "('c \<Rightarrow> 'v) \<Rightarrow> ('v \<Rightarrow> addr option \<Rightarrow> 'c) \<Rightarrow> ContractCompiler option \<Rightarrow> addr \<Rightarrow> bool
     \<Rightarrow> (addr \<Rightarrow> 'c) \<Rightarrow> ContractCompiler \<times> (addr \<Rightarrow> 'c)" where
  "ContractCompiler_new evmVersion CompilerContext p_runtimeCompiler p_context p_optimise store =
     (let this = ContractCompiler p_optimise p_runtimeCompiler p_context;
          fresh = CompilerContext (evmVersion (store p_context))
                    (case p_runtimeCompiler of Some rc \<Rightarrow> Some (m_context rc) | None \<Rightarrow> None)
      in (this, store(m_context this := fresh)))"

section \<open>Control-flow lowering and the scope tracker (ContractCompiler.h, spec sections 4.3 and 4.4)\<close>

text \<open>
  ContractCompiler.h declares the statement visitors and the members of the scope tracker,
  with their comments; the bodies of the visitors are in ContractCompiler.cpp, which is
  missing. The definitions of this section are therefore modelled from the specification,
  sections 3, 4.3, 4.4 and 7, with the names and the member comments of the header.
\<close>

text \<open>Modelled from the spec: an AST node, by which the scope and loop records of
  section 3 are keyed (header: \<open>ASTNode const*\<close>).\<close>

type_synonym node = nat

text \<open>Modelled from the spec: a local variable, as far as the tracker of section 4.4 needs
  it: its identity and the number of stack slots it occupies.\<close>

datatype VariableDeclaration = VariableDeclaration (decl_id: nat) (sizeOnStack: nat)

text \<open>Modelled from the spec: an expression, lowered by the external expression lowering
  of section 2: its identity and the number of stack slots its value takes.\<close>

datatype Expression = Expression (expr_id: nat) (expr_slots: nat)

text \<open>
  Modelled from the spec: the statements that section 4.3 lowers (block, \<open>if\<close>,
  \<open>while\<close>, \<open>for\<close>, \<open>break\<close>, \<open>continue\<close>), with the declaration of a local and the
  expression statement, under the names of the visitors declared in the header. A block
  and a loop carry their AST node, the key of the scope and loop records. The other
  statements that the header declares visitors for (return, throw, emit, inline assembly,
  placeholder) are not part of section 4.3 and not part of this model.
\<close>

datatype Statement =
    Block node "Statement list"
  | IfStatement Expression Statement "Statement option"
  | WhileStatement node Expression Statement
  | ForStatement node "Statement option" Expression Expression Statement
  | Continue
  | Break
  | VariableDeclarationStatement VariableDeclaration "Expression option"
  | ExpressionStatement Expression

text \<open>
  Modelled from the spec: the two error classes of section 7. What raises them, the
  assertions of ContractCompiler.cpp, is missing.
\<close>

datatype CompilerError = FatalInternalError | FrontEndDiagnostic

text \<open>
  Modelled from the spec: the entries of the instruction stream of sections 2 and 6
  (the assembler is an external collaborator): an opcode, the definition of a tag, a jump
  and a jump-if-false to a tag, and the code that expression lowering emits for an
  expression, leaving the given number of slots.
\<close>

datatype AssemblyItem =
    POP
  | PUSH_ZERO
  | TAG nat
  | JUMP nat
  | JUMP_IF_FALSE nat
  | EXPRESSION nat nat

text \<open>Modelled from the spec: the change of the stack height that the stream tracks as
  an item is appended (\<open>currentStackHeight\<close>, section 6).\<close>

fun deposit :: "AssemblyItem \<Rightarrow> int" where
  "deposit POP = -1"
| "deposit PUSH_ZERO = 1"
| "deposit (TAG t) = 0"
| "deposit (JUMP t) = 0"
| "deposit (JUMP_IF_FALSE t) = -1"
| "deposit (EXPRESSION e n) = int n"

text \<open>
  Modelled from the spec: the state of the visitor: the instruction stream of section 2
  (its items, its tracked stack height and its tag counter) and the members of
  ContractCompiler that the statement visitors use, under the names of the header. The
  back of a \<open>std::vector\<close> is the head of the list. The nested \<open>std::map\<close>s are functions of the modifier depth and the node, an absent key
  standing for the empty record that \<open>operator[]\<close> would create.
\<close>

record CompilerState =
  asm_items :: "AssemblyItem list"
  stack_height :: int
  next_tag :: nat
  m_breakTags :: "nat list"
  m_continueTags :: "nat list"
  m_modifierDepth :: nat
  m_scopedVariables :: "nat \<Rightarrow> node \<Rightarrow> VariableDeclaration list"
  m_loopScopedVariables :: "nat \<Rightarrow> node \<Rightarrow> VariableDeclaration set"
  m_loops :: "node list"

text \<open>Modelled from the spec: the frame at the start of a function (section 3, Function
  Frame and ownership): no open loop, no target, no record.\<close>

definition freshState :: CompilerState where
  "freshState =
     \<lparr>asm_items = [], stack_height = 0, next_tag = 0, m_breakTags = [], m_continueTags = [],
      m_modifierDepth = 0, m_scopedVariables = (\<lambda>d n. []), m_loopScopedVariables = (\<lambda>d n. {}),
      m_loops = []\<rparr>"

text \<open>Modelled from the spec: \<open>emit\<close> of the instruction stream (section 6), which
  appends the item and tracks the stack height.\<close>

definition appendItem :: "AssemblyItem \<Rightarrow> CompilerState \<Rightarrow> CompilerState" where
  "appendItem i s = s\<lparr>asm_items := asm_items s @ [i], stack_height := stack_height s + deposit i\<rparr>"

text \<open>Modelled from the spec: \<open>emit\<close> of several items, one after the other.\<close>

fun appendItems :: "AssemblyItem list \<Rightarrow> CompilerState \<Rightarrow> CompilerState" where
  "appendItems [] s = s"
| "appendItems (i # is) s = appendItems is (appendItem i s)"

text \<open>Modelled from the spec: \<open>newTag\<close> of the instruction stream (section 6): tags are
  numbered as they are created.\<close>

definition newTag :: "CompilerState \<Rightarrow> nat \<times> CompilerState" where
  "newTag s = (next_tag s, s\<lparr>next_tag := Suc (next_tag s)\<rparr>)"

text \<open>Modelled from the spec: expression lowering (section 6), which emits the code of
  the expression and leaves its value, of the given number of slots, on the stack.\<close>

definition compileExpression :: "Expression \<Rightarrow> nat \<Rightarrow> CompilerState \<Rightarrow> CompilerState" where
  "compileExpression e slots s = appendItem (EXPRESSION (expr_id e) slots) s"

text \<open>
  Modelled from the spec: \<open>declare(variable, depth, scopeNode)\<close> of section 4.4 (header:
  \<open>addScopedVariable\<close>, "Adds a new scoped variable"). The variable is appended to the scope
  record of (depth, scope node) and added to the loop record of (depth, loop) of every loop
  on the current loop stack.
\<close>

definition addScopedVariable :: "node \<Rightarrow> VariableDeclaration \<Rightarrow> CompilerState \<Rightarrow> CompilerState" where
  "addScopedVariable scope decl s =
     (let d = m_modifierDepth s in
      s\<lparr>m_scopedVariables :=
           (m_scopedVariables s)(d := (m_scopedVariables s d)(scope := m_scopedVariables s d scope @ [decl])),
        m_loopScopedVariables :=
           (m_loopScopedVariables s)(d := (\<lambda>l. if l \<in> set (m_loops s)
                                                 then insert decl (m_loopScopedVariables s d l)
                                                 else m_loopScopedVariables s d l))\<rparr>)"

text \<open>
  Modelled from the spec: block exit and \<open>scopeExitSlots\<close> of sections 4.3 and 4.4 (header:
  \<open>popBlockScopedVariables\<close>, "Frees the variables of a certain scope (to be used when
  leaving)"). The locals declared directly in the scope are popped in reverse declaration
  order and the record is discarded.
\<close>

definition popBlockScopedVariables :: "node \<Rightarrow> CompilerState \<Rightarrow> CompilerState" where
  "popBlockScopedVariables n s =
     (let d = m_modifierDepth s;
          s' = appendItems (concat (map (\<lambda>v. replicate (sizeOnStack v) POP) (rev (m_scopedVariables s d n)))) s
      in s'\<lparr>m_scopedVariables := (m_scopedVariables s')(d := (m_scopedVariables s' d)(n := []))\<rparr>)"

text \<open>
  Modelled from the spec: \<open>loopExitSlots(depth)\<close> of section 4.4 (header:
  \<open>stackSizeOfCurrentLoopVariables\<close>, "Calculates the amount of stack slots allocated for
  local variables inside the latest loop"): the slots of the whole loop record of the
  innermost open loop. Outside any loop there is no such record.
\<close>

definition stackSizeOfCurrentLoopVariables :: "CompilerState \<Rightarrow> CompilerError + nat" where
  "stackSizeOfCurrentLoopVariables s =
     (case m_loops s of
        [] \<Rightarrow> Inl FatalInternalError
      | l # ls \<Rightarrow> Inr (sum sizeOnStack (m_loopScopedVariables s (m_modifierDepth s) l)))"

text \<open>
  Modelled from the spec (header: \<open>popAndJump\<close>, "Pops _amount slots from the stack and
  jumps to _jumpTo. Also readjusts the stack offset to the original value").
\<close>

definition popAndJump :: "nat \<Rightarrow> nat \<Rightarrow> CompilerState \<Rightarrow> CompilerState" where
  "popAndJump amount jumpTo s =
     (appendItems (replicate amount POP @ [JUMP jumpTo]) s)\<lparr>stack_height := stack_height s\<rparr>"

text \<open>
  Modelled from the spec: Break/Continue of section 4.3 (header: \<open>visitBreakContinue\<close>,
  "Counts how many stack slots should be freed and points to a new tag accordingly"). The
  target of the innermost open loop is looked up, the slots of the loop record are popped
  and the jump is emitted; outside any loop the visit fails with a fatal internal error.
  The argument says whether the statement is a \<open>break\<close>.
\<close>

definition visitBreakContinue :: "bool \<Rightarrow> CompilerState \<Rightarrow> CompilerError + CompilerState" where
  "visitBreakContinue isBreak s =
     (case (if isBreak then m_breakTags s else m_continueTags s) of
        [] \<Rightarrow> Inl FatalInternalError
      | jumpTo # ts \<Rightarrow>
          (case stackSizeOfCurrentLoopVariables s of
             Inl e \<Rightarrow> Inl e
           | Inr amount \<Rightarrow> Inr (popAndJump amount jumpTo s)))"

text \<open>
  Modelled from the spec: entering a loop ("push (loop-end tag, loop-condition tag) as the
  current (break-target, continue-target)", section 4.3), which also opens the loop on the
  loop stack of section 4.4.
\<close>

definition visitLoop :: "node \<Rightarrow> nat \<Rightarrow> nat \<Rightarrow> CompilerState \<Rightarrow> CompilerState" where
  "visitLoop loop breakTag continueTag s =
     s\<lparr>m_breakTags := breakTag # m_breakTags s,
       m_continueTags := continueTag # m_continueTags s,
       m_loops := loop # m_loops s\<rparr>"

text \<open>
  Modelled from the spec: leaving a loop ("pop the break/continue targets", section 4.3;
  header: \<open>endVisitLoop\<close>, "Removes a loop level from the structures that keep track of
  scoped variables"; section 4.4: a record is discarded once its loop is lowered).
\<close>

definition endVisitLoop :: "node \<Rightarrow> CompilerState \<Rightarrow> CompilerState" where
  "endVisitLoop loop s =
     (let d = m_modifierDepth s in
      s\<lparr>m_breakTags := tl (m_breakTags s),
        m_continueTags := tl (m_continueTags s),
        m_loops := tl (m_loops s),
        m_loopScopedVariables := (m_loopScopedVariables s)(d := (m_loopScopedVariables s d)(loop := {}))\<rparr>)"


text \<open>
  Modelled from the spec: the code up to the body of a \<open>while\<close> loop (section 4.3): define
  the loop-condition tag, evaluate the condition, jump to the loop-end tag if it is false,
  and open the loop with the loop-end tag as break target and the loop-condition tag as
  continue target.
\<close>

definition enterWhile :: "node \<Rightarrow> Expression \<Rightarrow> CompilerState \<Rightarrow> CompilerState" where
  "enterWhile loop condition s =
     (let (loopStart, s1) = newTag s;
          (loopEnd, s2) = newTag s1;
          s3 = appendItem (TAG loopStart) s2;
          s4 = compileExpression condition 1 s3;
          s5 = appendItem (JUMP_IF_FALSE loopEnd) s4
      in visitLoop loop loopEnd loopStart s5)"

text \<open>Modelled from the spec: after the body of a \<open>while\<close> loop, jump back to the
  loop-condition tag, define the loop-end tag and close the loop.\<close>

definition leaveWhile :: "node \<Rightarrow> CompilerState \<Rightarrow> CompilerState" where
  "leaveWhile loop s =
     (let loopEnd = hd (m_breakTags s);
          loopStart = hd (m_continueTags s)
      in endVisitLoop loop (appendItem (TAG loopEnd) (appendItem (JUMP loopStart) s)))"

text \<open>Modelled from the spec: the three tags that a \<open>for\<close> loop creates: the
  loop-condition tag, the loop-end tag and the tag of the increment step.\<close>

definition forTags :: "CompilerState \<Rightarrow> nat \<times> nat \<times> nat" where
  "forTags s = (next_tag s, Suc (next_tag s), Suc (Suc (next_tag s)))"

text \<open>
  Modelled from the spec: a \<open>for\<close> loop after its init statement (section 4.3): as a
  \<open>while\<close> loop, with the continue target at the increment step.
\<close>

definition enterFor :: "node \<Rightarrow> Expression \<Rightarrow> CompilerState \<Rightarrow> CompilerState" where
  "enterFor loop condition s =
     (let (loopStart, s1) = newTag s;
          (loopEnd, s2) = newTag s1;
          (loopNext, s3) = newTag s2;
          s4 = appendItem (TAG loopStart) s3;
          s5 = compileExpression condition 1 s4;
          s6 = appendItem (JUMP_IF_FALSE loopEnd) s5
      in visitLoop loop loopEnd loopNext s6)"

text \<open>
  Modelled from the spec: after the body of a \<open>for\<close> loop, the increment step (its tag, the
  increment expression and the pops of its value) just before the jump back to the
  condition, then the loop-end tag; the loop is closed and the scope of the init statement,
  which is the \<open>for\<close> statement itself, is left.
\<close>

definition leaveFor :: "node \<Rightarrow> nat \<Rightarrow> Expression \<Rightarrow> CompilerState \<Rightarrow> CompilerState" where
  "leaveFor loop loopStart increment s =
     (let loopEnd = hd (m_breakTags s);
          loopNext = hd (m_continueTags s);
          s1 = appendItem (TAG loopNext) s;
          s2 = compileExpression increment (expr_slots increment) s1;
          s3 = appendItems (replicate (expr_slots increment) POP) s2;
          s4 = appendItem (JUMP loopStart) s3;
          s5 = appendItem (TAG loopEnd) s4
      in popBlockScopedVariables loop (endVisitLoop loop s5))"

text \<open>
  Modelled from the spec: an \<open>if\<close> without else-branch (section 4.3): evaluate the
  condition and jump to the end tag if it is false; the then-branch follows and the end
  tag, the first new tag, is defined after it.
\<close>

definition enterIf :: "Expression \<Rightarrow> CompilerState \<Rightarrow> CompilerState" where
  "enterIf condition s =
     (let (endTag, s1) = newTag s
      in appendItem (JUMP_IF_FALSE endTag) (compileExpression condition 1 s1))"

text \<open>
  Modelled from the spec: an \<open>if\<close> with else-branch (section 4.3): evaluate the
  condition and jump to the else tag if it is false; after the then-branch, jump to the
  end tag and define the else tag; the end tag is defined after the else-branch. The else
  tag is the first new tag and the end tag the second.
\<close>

definition enterIfElse :: "Expression \<Rightarrow> CompilerState \<Rightarrow> CompilerState" where
  "enterIfElse condition s =
     (let (elseTag, s1) = newTag s;
          (endTag, s2) = newTag s1
      in appendItem (JUMP_IF_FALSE elseTag) (compileExpression condition 1 s2))"

text \<open>Modelled from the spec: between the branches of an \<open>if\<close> with else-branch: the
  jump to the end tag and the definition of the else tag. The first argument is the state
  in which the \<open>if\<close> was begun.\<close>

definition enterElse :: "CompilerState \<Rightarrow> CompilerState \<Rightarrow> CompilerState" where
  "enterElse s0 s =
     (let elseTag = next_tag s0;
          endTag = Suc (next_tag s0)
      in appendItem (TAG elseTag) (appendItem (JUMP endTag) s))"

text \<open>
  Modelled from the spec: the statement visitors of section 4.3. The first argument is the
  node of the enclosing scope, in which a declared local is recorded. A failure of a
  sub-statement is the failure of the statement.
\<close>

fun visit :: "node \<Rightarrow> Statement \<Rightarrow> CompilerState \<Rightarrow> CompilerError + CompilerState"
  and visitStatements :: "node \<Rightarrow> Statement list \<Rightarrow> CompilerState \<Rightarrow> CompilerError + CompilerState" where
  "visit scope (Block n statements) s =
     (case visitStatements n statements s of
        Inl e \<Rightarrow> Inl e
      | Inr s' \<Rightarrow> Inr (popBlockScopedVariables n s'))"
| "visit scope (IfStatement condition trueBody None) s =
     (case visit scope trueBody (enterIf condition s) of
        Inl e \<Rightarrow> Inl e
      | Inr s' \<Rightarrow> Inr (appendItem (TAG (next_tag s)) s'))"
| "visit scope (IfStatement condition trueBody (Some falseBody)) s =
     (case visit scope trueBody (enterIfElse condition s) of
        Inl e \<Rightarrow> Inl e
      | Inr s1 \<Rightarrow>
          (case visit scope falseBody (enterElse s s1) of
             Inl e \<Rightarrow> Inl e
           | Inr s' \<Rightarrow> Inr (appendItem (TAG (Suc (next_tag s))) s')))"
| "visit scope (WhileStatement n condition body) s =
     (case visit scope body (enterWhile n condition s) of
        Inl e \<Rightarrow> Inl e
      | Inr s' \<Rightarrow> Inr (leaveWhile n s'))"
| "visit scope (ForStatement n None condition increment body) s =
     (case visit n body (enterFor n condition s) of
        Inl e \<Rightarrow> Inl e
      | Inr s' \<Rightarrow> Inr (leaveFor n (fst (forTags s)) increment s'))"
| "visit scope (ForStatement n (Some init) condition increment body) s =
     (case visit n init s of
        Inl e \<Rightarrow> Inl e
      | Inr s1 \<Rightarrow>
          (case visit n body (enterFor n condition s1) of
             Inl e \<Rightarrow> Inl e
           | Inr s' \<Rightarrow> Inr (leaveFor n (fst (forTags s1)) increment s')))"
| "visit scope Continue s = visitBreakContinue False s"
| "visit scope Break s = visitBreakContinue True s"
| "visit scope (VariableDeclarationStatement decl None) s =
     Inr (addScopedVariable scope decl (appendItems (replicate (sizeOnStack decl) PUSH_ZERO) s))"
| "visit scope (VariableDeclarationStatement decl (Some value)) s =
     Inr (addScopedVariable scope decl (compileExpression value (sizeOnStack decl) s))"
| "visit scope (ExpressionStatement e) s =
     Inr (appendItems (replicate (expr_slots e) POP) (compileExpression e (expr_slots e) s))"
| "visitStatements scope [] s = Inr s"
| "visitStatements scope (st # statements) s =
     (case visit scope st s of
        Inl e \<Rightarrow> Inl e
      | Inr s' \<Rightarrow> visitStatements scope statements s')"

text \<open>Modelled from the spec: a function of the contract, as far as the statement visitors
  see it: its node, the scope of its body, and its body.\<close>

datatype FunctionDefinition = FunctionDefinition (function_node: node) (function_body: Statement)

text \<open>Modelled from the spec: the visit of a function starts with a frame of its own: no
  target, no open loop, no record, modifier depth 0.\<close>

definition visitFunction :: "FunctionDefinition \<Rightarrow> CompilerState \<Rightarrow> CompilerError + CompilerState" where
  "visitFunction f s =
     visit (function_node f) (function_body f)
       (s\<lparr>m_breakTags := [], m_continueTags := [], m_modifierDepth := 0,
          m_scopedVariables := (\<lambda>d n. []), m_loopScopedVariables := (\<lambda>d n. {}), m_loops := []\<rparr>)"

text \<open>
  Modelled from the spec: a fatal internal error aborts the whole compilation unit and
  there is no partial success (sections 5 and 7): the functions of a contract are lowered
  one after the other, and the first failure is the failure of the contract.
\<close>

fun compileFunctions :: "FunctionDefinition list \<Rightarrow> CompilerState \<Rightarrow> CompilerError + CompilerState" where
  "compileFunctions [] s = Inr s"
| "compileFunctions (f # fs) s =
     (case visitFunction f s of
        Inl e \<Rightarrow> Inl e
      | Inr s' \<Rightarrow> compileFunctions fs s')"

subsection \<open>What the properties speak of\<close>






text \<open>A \<open>break\<close> or \<open>continue\<close> of a statement that no loop of the statement encloses.\<close>

fun breakOutsideLoop :: "Statement \<Rightarrow> bool"
  and breakOutsideLoopStatements :: "Statement list \<Rightarrow> bool" where
  "breakOutsideLoop (Block n statements) = breakOutsideLoopStatements statements"
| "breakOutsideLoop (IfStatement condition trueBody None) = breakOutsideLoop trueBody"
| "breakOutsideLoop (IfStatement condition trueBody (Some falseBody)) =
     (breakOutsideLoop trueBody \<or> breakOutsideLoop falseBody)"
| "breakOutsideLoop (WhileStatement n condition body) = False"
| "breakOutsideLoop (ForStatement n None condition increment body) = False"
| "breakOutsideLoop (ForStatement n (Some init) condition increment body) = breakOutsideLoop init"
| "breakOutsideLoop Continue = True"
| "breakOutsideLoop Break = True"
| "breakOutsideLoop (VariableDeclarationStatement decl value) = False"
| "breakOutsideLoop (ExpressionStatement e) = False"
| "breakOutsideLoopStatements [] = False"
| "breakOutsideLoopStatements (st # statements) =
     (breakOutsideLoop st \<or> breakOutsideLoopStatements statements)"

section \<open>Properties of the SMT portfolio\<close>

lemma check_loop_no_definite:
  assumes "sat_unsat_first ord" "\<forall>s\<in>set ss. \<not> definite (s es)"
  shows "check_loop ord es l fv n ss = (l, fv, n + length ss)"
  using assms(2)
proof (induction ss arbitrary: n)
  case Nil then show ?case by simp
next
  case (Cons s ss)
  obtain r v where sv: "s es = (r, v)" by (cases "s es")
  with Cons.prems have "\<not> ord r \<le> ord UNSATISFIABLE"
    using assms(1) by (auto simp: sat_unsat_first_def definite_def)
  with Cons sv show ?case by simp
qed

lemma check_loop_agreeing:
  assumes "sat_unsat_first ord" "l \<noteq> UNKNOWN"
    and "\<forall>s\<in>set ss. definite (s es) \<longrightarrow> fst (s es) = l"
  shows "check_loop ord es l fv n ss = (l, fv, n + length ss)"
  using assms(3)
proof (induction ss arbitrary: n)
  case Nil then show ?case by simp
next
  case (Cons s ss)
  obtain r v where sv: "s es = (r, v)" by (cases "s es")
  show ?case
  proof (cases "ord r \<le> ord UNSATISFIABLE")
    case True
    then have "r = l"
      using Cons.prems sv assms(1) by (auto simp: sat_unsat_first_def definite_def)
    with True Cons sv assms(2) show ?thesis by simp
  next
    case False
    with Cons sv show ?thesis by simp
  qed
qed

lemma check_loop_conflict:
  assumes "sat_unsat_first ord" "l \<noteq> UNKNOWN"
    and "\<forall>s\<in>set mid. definite (s es) \<longrightarrow> fst (s es) = l"
    and "definite (c es)" "fst (c es) \<noteq> l"
  shows "check_loop ord es l fv n (mid @ c # post) = (CONFLICTING, fv, n + length mid + 1)"
  using assms(3)
proof (induction mid arbitrary: n)
  case Nil
  obtain r v where sv: "c es = (r, v)" by (cases "c es")
  with assms show ?case by (auto simp: sat_unsat_first_def definite_def)
next
  case (Cons s ss)
  obtain r v where sv: "s es = (r, v)" by (cases "s es")
  show ?case
  proof (cases "ord r \<le> ord UNSATISFIABLE")
    case True
    then have "r = l"
      using Cons.prems sv assms(1) by (auto simp: sat_unsat_first_def definite_def)
    with True Cons sv assms(2) show ?thesis by simp
  next
    case False
    with Cons sv show ?thesis by simp
  qed
qed

lemma check_loop_first_definite:
  assumes "sat_unsat_first ord"
    and "\<forall>s\<in>set pre. \<not> definite (s es)" "definite (d es)"
  shows "check_loop ord es UNKNOWN fv n (pre @ d # rest) =
         check_loop ord es (fst (d es)) (snd (d es)) (n + length pre + 1) rest"
  using assms(2)
proof (induction pre arbitrary: n)
  case Nil
  obtain r v where sv: "d es = (r, v)" by (cases "d es")
  with assms show ?case by (auto simp: sat_unsat_first_def definite_def)
next
  case (Cons s ss)
  obtain r v where sv: "s es = (r, v)" by (cases "s es")
  with Cons.prems have "\<not> ord r \<le> ord UNSATISFIABLE"
    using assms(1) by (auto simp: sat_unsat_first_def definite_def)
  with Cons sv show ?case by simp
qed

lemma check_loop_not_ERROR:
  assumes "sat_unsat_first ord" "l \<noteq> ERROR"
  shows "fst (check_loop ord es l fv n ss) \<noteq> ERROR"
  using assms(2)
proof (induction ss arbitrary: l fv n)
  case Nil then show ?case by simp
next
  case (Cons s ss)
  obtain r v where sv: "s es = (r, v)" by (cases "s es")
  have "ord r \<le> ord UNSATISFIABLE \<Longrightarrow> r \<noteq> ERROR"
    using assms(1) by (auto simp: sat_unsat_first_def)
  with Cons sv show ?case by simp
qed

lemma sat_unsat_first_position: "sat_unsat_first CheckResult_position"
  unfolding sat_unsat_first_def
proof
  fix r show "(CheckResult_position r \<le> CheckResult_position UNSATISFIABLE) =
      (r = SATISFIABLE \<or> r = UNSATISFIABLE)"
    by (cases r) simp_all
qed

text \<open>
  C9. Whatever the contained solvers answer, \<open>check\<close> returns the result and the values of
  the first solver that answers SAT or UNSAT, having asked every solver, when no later
  definite answer differs from it; UNKNOWN and ERROR answers (and any other answer that is
  not SAT or UNSAT) are passed over. When a later solver gives a definite answer that
  differs from the first definite one, the result is CONFLICTING, with the values of the
  first definite answer, and no solver after the conflicting one is asked. When no solver
  gives a definite answer the result is UNKNOWN with no values. The result is never ERROR.
  The hypothesis is the fact on the enumeration that the comments of \<open>check\<close> rely on.
\<close>

theorem SMTPortfolio_check_first_definite:
  assumes ord: "sat_unsat_first ord"
  shows "((\<forall>s\<in>set solvers. \<not> definite (s es)) \<longrightarrow>
            check ord solvers es = (UNKNOWN, []) \<and> check_queried ord solvers es = length solvers)
       \<and> (\<forall>pre d post.
            solvers = pre @ d # post \<and> (\<forall>s\<in>set pre. \<not> definite (s es)) \<and> definite (d es) \<and>
            (\<forall>s\<in>set post. definite (s es) \<longrightarrow> fst (s es) = fst (d es)) \<longrightarrow>
            check ord solvers es = d es \<and> check_queried ord solvers es = length solvers)
       \<and> (\<forall>pre d mid c post.
            solvers = pre @ d # mid @ c # post \<and> (\<forall>s\<in>set pre. \<not> definite (s es)) \<and>
            definite (d es) \<and> (\<forall>s\<in>set mid. definite (s es) \<longrightarrow> fst (s es) = fst (d es)) \<and>
            definite (c es) \<and> fst (c es) \<noteq> fst (d es) \<longrightarrow>
            check ord solvers es = (CONFLICTING, snd (d es)) \<and>
            check_queried ord solvers es = length pre + length mid + 2)
       \<and> fst (check ord solvers es) \<noteq> ERROR"
proof (intro conjI allI impI)
  assume "\<forall>s\<in>set solvers. \<not> definite (s es)"
  from check_loop_no_definite[OF ord this]
  show "check ord solvers es = (UNKNOWN, [])" "check_queried ord solvers es = length solvers"
    by (simp_all add: check_def check_queried_def)
next
  fix pre d post
  assume a: "solvers = pre @ d # post \<and> (\<forall>s\<in>set pre. \<not> definite (s es)) \<and> definite (d es) \<and>
            (\<forall>s\<in>set post. definite (s es) \<longrightarrow> fst (s es) = fst (d es))"
  then have nu: "fst (d es) \<noteq> UNKNOWN" by (auto simp: definite_def)
  from a have "check_loop ord es UNKNOWN [] 0 solvers =
        check_loop ord es (fst (d es)) (snd (d es)) (0 + length pre + 1) post"
    using check_loop_first_definite[OF ord, of pre es d "[]" 0 post] by simp
  also have "\<dots> = (fst (d es), snd (d es), 0 + length pre + 1 + length post)"
    using check_loop_agreeing[OF ord nu, of post es] a by simp
  finally have "check_loop ord es UNKNOWN [] 0 solvers = (fst (d es), snd (d es), length solvers)"
    using a by simp
  then show "check ord solvers es = d es" "check_queried ord solvers es = length solvers"
    by (simp_all add: check_def check_queried_def)
next
  fix pre d mid c post
  assume a: "solvers = pre @ d # mid @ c # post \<and> (\<forall>s\<in>set pre. \<not> definite (s es)) \<and>
            definite (d es) \<and> (\<forall>s\<in>set mid. definite (s es) \<longrightarrow> fst (s es) = fst (d es)) \<and>
            definite (c es) \<and> fst (c es) \<noteq> fst (d es)"
  then have nu: "fst (d es) \<noteq> UNKNOWN" by (auto simp: definite_def)
  from a have "check_loop ord es UNKNOWN [] 0 solvers =
        check_loop ord es (fst (d es)) (snd (d es)) (0 + length pre + 1) (mid @ c # post)"
    using check_loop_first_definite[OF ord, of pre es d "[]" 0 "mid @ c # post"] by simp
  also have "\<dots> = (CONFLICTING, snd (d es), 0 + length pre + 1 + length mid + 1)"
    using check_loop_conflict[OF ord nu, of mid es c] a by simp
  finally have "check_loop ord es UNKNOWN [] 0 solvers =
      (CONFLICTING, snd (d es), length pre + length mid + 2)"
    by simp
  then show "check ord solvers es = (CONFLICTING, snd (d es))"
    "check_queried ord solvers es = length pre + length mid + 2"
    by (simp_all add: check_def check_queried_def)
next
  have "fst (check_loop ord es UNKNOWN [] 0 solvers) \<noteq> ERROR"
    using check_loop_not_ERROR[OF ord, of UNKNOWN] by simp
  then show "fst (check ord solvers es) \<noteq> ERROR"
    by (auto simp: check_def split: prod.splits)
qed

theorem SMTPortfolio_check_first_definite_witness:
  "sat_unsat_first CheckResult_position
   \<and> check CheckResult_position
       [\<lambda>_. (UNKNOWN, []), \<lambda>_. (SATISFIABLE, [''1'']), \<lambda>_. (ERROR, [''9'']),
        \<lambda>_. (SATISFIABLE, [''2'']), \<lambda>_. (UNSATISFIABLE, []), \<lambda>_. (SATISFIABLE, [''3''])]
       ([] :: nat list) = (CONFLICTING, [''1''])
   \<and> check_queried CheckResult_position
       [\<lambda>_. (UNKNOWN, []), \<lambda>_. (SATISFIABLE, [''1'']), \<lambda>_. (ERROR, [''9'']),
        \<lambda>_. (SATISFIABLE, [''2'']), \<lambda>_. (UNSATISFIABLE, []), \<lambda>_. (SATISFIABLE, [''3''])]
       ([] :: nat list) = 5"
proof -
  let ?pre = "[\<lambda>_. (UNKNOWN, [])] :: nat solver list"
  let ?d = "(\<lambda>_. (SATISFIABLE, [''1''])) :: nat solver"
  let ?mid = "[\<lambda>_. (ERROR, [''9'']), \<lambda>_. (SATISFIABLE, [''2''])] :: nat solver list"
  let ?c = "(\<lambda>_. (UNSATISFIABLE, [])) :: nat solver"
  let ?post = "[\<lambda>_. (SATISFIABLE, [''3''])] :: nat solver list"
  have h: "sat_unsat_first CheckResult_position" by (rule sat_unsat_first_position)
  have pre: "?pre @ ?d # ?mid @ ?c # ?post = ?pre @ ?d # ?mid @ ?c # ?post \<and>
      (\<forall>s\<in>set ?pre. \<not> definite (s [])) \<and> definite (?d []) \<and>
      (\<forall>s\<in>set ?mid. definite (s []) \<longrightarrow> fst (s []) = fst (?d [])) \<and>
      definite (?c []) \<and> fst (?c []) \<noteq> fst (?d [])"
    by (simp add: definite_def)
  from SMTPortfolio_check_first_definite[OF h, of "?pre @ ?d # ?mid @ ?c # ?post" "[]"]
  have "\<forall>pre d mid c post.
            ?pre @ ?d # ?mid @ ?c # ?post = pre @ d # mid @ c # post \<and> (\<forall>s\<in>set pre. \<not> definite (s [])) \<and>
            definite (d []) \<and> (\<forall>s\<in>set mid. definite (s []) \<longrightarrow> fst (s []) = fst (d [])) \<and>
            definite (c []) \<and> fst (c []) \<noteq> fst (d []) \<longrightarrow>
            check CheckResult_position (?pre @ ?d # ?mid @ ?c # ?post) [] = (CONFLICTING, snd (d [])) \<and>
            check_queried CheckResult_position (?pre @ ?d # ?mid @ ?c # ?post) [] = length pre + length mid + 2"
    by blast
  then have "check CheckResult_position (?pre @ ?d # ?mid @ ?c # ?post) [] = (CONFLICTING, snd (?d [])) \<and>
            check_queried CheckResult_position (?pre @ ?d # ?mid @ ?c # ?post) [] = length ?pre + length ?mid + 2"
    using pre by blast
  with h show ?thesis by simp
qed

section \<open>Properties of the constructor of ContractCompiler\<close>

text \<open>
  C10. Constructing a ContractCompiler keeps the reference, the runtime compiler and the
  optimise flag, and overwrites the context passed by reference with a freshly constructed
  one: built with no runtime context when no runtime compiler is given, and with the
  runtime compiler's context otherwise. Every other context in the store is left as it was.
  Of the overwritten context only the EVM version matters: starting from any other store
  whose context at that address has the same EVM version gives the same new context.
\<close>

theorem ContractCompiler_new_overwrites_context:
  assumes "ContractCompiler_new ev mk rc c opt st = (this, st')"
  shows "m_context this = c \<and> m_runtimeCompiler this = rc \<and> m_optimise this = opt
       \<and> (rc = None \<longrightarrow> st' c = mk (ev (st c)) None)
       \<and> (\<forall>r. rc = Some r \<longrightarrow> st' c = mk (ev (st c)) (Some (m_context r)))
       \<and> (\<forall>a. a \<noteq> c \<longrightarrow> st' a = st a)
       \<and> (\<forall>st2. ev (st2 c) = ev (st c) \<longrightarrow>
             snd (ContractCompiler_new ev mk rc c opt st2) c = st' c)"
  using assms by (auto simp: ContractCompiler_new_def Let_def)

theorem ContractCompiler_new_overwrites_context_witness:
  "ContractCompiler_new fst (\<lambda>v r. (v, r, []))
      (Some (ContractCompiler False None 2)) 1 True
      ((\<lambda>_. (0::nat, None, [])) (1 := (3, Some 7, [''PUSH'', ''JUMP''])))
    = (ContractCompiler True (Some (ContractCompiler False None 2)) 1,
       ((\<lambda>_. (0::nat, None, [])) (1 := (3, Some 2, []))))
   \<and> snd (ContractCompiler_new fst (\<lambda>v r. (v, r, []))
        (Some (ContractCompiler False None 2)) 1 True (\<lambda>_. (3::nat, None, [''STOP'']))) 1
     = (3, Some 2, ([] :: string list))"
proof -
  let ?mk = "(\<lambda>v r. (v, r, [])) :: nat \<Rightarrow> addr option \<Rightarrow> nat \<times> addr option \<times> string list"
  let ?rc = "Some (ContractCompiler False None 2)"
  let ?st = "(\<lambda>_. (0::nat, None, [])) (1 := (3, Some 7, [''PUSH'', ''JUMP'']))"
  let ?st2 = "(\<lambda>_. (3::nat, None :: addr option, [''STOP'']))"
  obtain this st' where r: "ContractCompiler_new fst ?mk ?rc 1 True ?st = (this, st')"
    by (cases "ContractCompiler_new fst ?mk ?rc 1 True ?st")
  note t = ContractCompiler_new_overwrites_context[OF r]
  note f1 = t[THEN conjunct1]
  note f2 = t[THEN conjunct2, THEN conjunct1]
  note f3 = t[THEN conjunct2, THEN conjunct2, THEN conjunct1]
  note s5 = t[THEN conjunct2, THEN conjunct2, THEN conjunct2, THEN conjunct2, THEN conjunct1]
  note s6 = t[THEN conjunct2, THEN conjunct2, THEN conjunct2, THEN conjunct2, THEN conjunct2,
      THEN conjunct1]
  note s7 = t[THEN conjunct2, THEN conjunct2, THEN conjunct2, THEN conjunct2, THEN conjunct2,
      THEN conjunct2]
  from s5 have c: "st' 1 = (3, Some 2, [])" by simp
  from s6 have o: "\<And>a. a \<noteq> 1 \<Longrightarrow> st' a = ?st a" by simp
  from s7[rule_format, of ?st2]
  have d: "snd (ContractCompiler_new fst ?mk ?rc 1 True ?st2) 1 = st' 1" by simp
  have "this = ContractCompiler True ?rc 1" using f1 f2 f3 by (cases this) simp
  moreover have "st' = (\<lambda>_. (0::nat, None, [])) (1 := (3, Some 2, []))"
  proof
    fix a show "st' a = ((\<lambda>_. (0::nat, None, [])) (1 := (3, Some 2, []))) a"
      using c o[of a] by (cases "a = 1") simp_all
  qed
  moreover have "snd (ContractCompiler_new fst ?mk ?rc 1 True ?st2) 1 = (3, Some 2, [])"
    using d c by simp
  ultimately show ?thesis using r by (simp only: simp_thms)
qed

section \<open>Properties of the control-flow lowering\<close>

subsection \<open>The members that the stream operations leave alone\<close>

lemma appendItem_fields [simp]:
  "asm_items (appendItem i s) = asm_items s @ [i]"
  "next_tag (appendItem i s) = next_tag s"
  "m_breakTags (appendItem i s) = m_breakTags s"
  "m_continueTags (appendItem i s) = m_continueTags s"
  "m_modifierDepth (appendItem i s) = m_modifierDepth s"
  "m_scopedVariables (appendItem i s) = m_scopedVariables s"
  "m_loopScopedVariables (appendItem i s) = m_loopScopedVariables s"
  "m_loops (appendItem i s) = m_loops s"
  by (simp_all add: appendItem_def)

lemma appendItems_fields [simp]:
  "asm_items (appendItems is s) = asm_items s @ is"
  "next_tag (appendItems is s) = next_tag s"
  "m_breakTags (appendItems is s) = m_breakTags s"
  "m_continueTags (appendItems is s) = m_continueTags s"
  "m_modifierDepth (appendItems is s) = m_modifierDepth s"
  "m_scopedVariables (appendItems is s) = m_scopedVariables s"
  "m_loopScopedVariables (appendItems is s) = m_loopScopedVariables s"
  "m_loops (appendItems is s) = m_loops s"
  by (induction "is" arbitrary: s; simp)+

lemma compileExpression_fields [simp]:
  "asm_items (compileExpression e k s) = asm_items s @ [EXPRESSION (expr_id e) k]"
  "next_tag (compileExpression e k s) = next_tag s"
  "m_breakTags (compileExpression e k s) = m_breakTags s"
  "m_continueTags (compileExpression e k s) = m_continueTags s"
  "m_modifierDepth (compileExpression e k s) = m_modifierDepth s"
  "m_scopedVariables (compileExpression e k s) = m_scopedVariables s"
  "m_loopScopedVariables (compileExpression e k s) = m_loopScopedVariables s"
  "m_loops (compileExpression e k s) = m_loops s"
  by (simp_all add: compileExpression_def)

lemma addScopedVariable_fields [simp]:
  "asm_items (addScopedVariable sc v s) = asm_items s"
  "next_tag (addScopedVariable sc v s) = next_tag s"
  "m_breakTags (addScopedVariable sc v s) = m_breakTags s"
  "m_continueTags (addScopedVariable sc v s) = m_continueTags s"
  "m_modifierDepth (addScopedVariable sc v s) = m_modifierDepth s"
  "m_loops (addScopedVariable sc v s) = m_loops s"
  "m_loopScopedVariables (addScopedVariable sc v s) d l =
     (if d = m_modifierDepth s \<and> l \<in> set (m_loops s) then insert v (m_loopScopedVariables s d l)
      else m_loopScopedVariables s d l)"
  by (simp_all add: addScopedVariable_def Let_def)

lemma popBlockScopedVariables_fields [simp]:
  "next_tag (popBlockScopedVariables n s) = next_tag s"
  "m_breakTags (popBlockScopedVariables n s) = m_breakTags s"
  "m_continueTags (popBlockScopedVariables n s) = m_continueTags s"
  "m_modifierDepth (popBlockScopedVariables n s) = m_modifierDepth s"
  "m_loopScopedVariables (popBlockScopedVariables n s) = m_loopScopedVariables s"
  "m_loops (popBlockScopedVariables n s) = m_loops s"
  by (simp_all add: popBlockScopedVariables_def Let_def)

lemma popAndJump_fields [simp]:
  "asm_items (popAndJump k t s) = asm_items s @ replicate k POP @ [JUMP t]"
  "next_tag (popAndJump k t s) = next_tag s"
  "m_breakTags (popAndJump k t s) = m_breakTags s"
  "m_continueTags (popAndJump k t s) = m_continueTags s"
  "m_modifierDepth (popAndJump k t s) = m_modifierDepth s"
  "m_scopedVariables (popAndJump k t s) = m_scopedVariables s"
  "m_loopScopedVariables (popAndJump k t s) = m_loopScopedVariables s"
  "m_loops (popAndJump k t s) = m_loops s"
  by (simp_all add: popAndJump_def)

lemma enterIf_fields [simp]:
  "m_breakTags (enterIf c s) = m_breakTags s"
  "m_continueTags (enterIf c s) = m_continueTags s"
  "m_modifierDepth (enterIf c s) = m_modifierDepth s"
  "m_loopScopedVariables (enterIf c s) = m_loopScopedVariables s"
  "m_loops (enterIf c s) = m_loops s"
  by (simp_all add: enterIf_def newTag_def)

lemma enterIfElse_fields [simp]:
  "m_breakTags (enterIfElse c s) = m_breakTags s"
  "m_continueTags (enterIfElse c s) = m_continueTags s"
  "m_modifierDepth (enterIfElse c s) = m_modifierDepth s"
  "m_loopScopedVariables (enterIfElse c s) = m_loopScopedVariables s"
  "m_loops (enterIfElse c s) = m_loops s"
  by (simp_all add: enterIfElse_def newTag_def)

lemma enterElse_fields [simp]:
  "m_breakTags (enterElse s0 s) = m_breakTags s"
  "m_continueTags (enterElse s0 s) = m_continueTags s"
  "m_modifierDepth (enterElse s0 s) = m_modifierDepth s"
  "m_loopScopedVariables (enterElse s0 s) = m_loopScopedVariables s"
  "m_loops (enterElse s0 s) = m_loops s"
  by (simp_all add: enterElse_def Let_def)

lemma enterWhile_fields [simp]:
  "m_breakTags (enterWhile n c s) = Suc (next_tag s) # m_breakTags s"
  "m_continueTags (enterWhile n c s) = next_tag s # m_continueTags s"
  "m_modifierDepth (enterWhile n c s) = m_modifierDepth s"
  "m_loopScopedVariables (enterWhile n c s) = m_loopScopedVariables s"
  "m_loops (enterWhile n c s) = n # m_loops s"
  by (simp_all add: enterWhile_def newTag_def visitLoop_def)

lemma enterFor_fields [simp]:
  "m_breakTags (enterFor n c s) = Suc (next_tag s) # m_breakTags s"
  "m_continueTags (enterFor n c s) = Suc (Suc (next_tag s)) # m_continueTags s"
  "m_modifierDepth (enterFor n c s) = m_modifierDepth s"
  "m_loopScopedVariables (enterFor n c s) = m_loopScopedVariables s"
  "m_loops (enterFor n c s) = n # m_loops s"
  by (simp_all add: enterFor_def newTag_def visitLoop_def)

lemma endVisitLoop_fields [simp]:
  "m_breakTags (endVisitLoop n s) = tl (m_breakTags s)"
  "m_continueTags (endVisitLoop n s) = tl (m_continueTags s)"
  "m_modifierDepth (endVisitLoop n s) = m_modifierDepth s"
  "m_loops (endVisitLoop n s) = tl (m_loops s)"
  "m_loopScopedVariables (endVisitLoop n s) d l =
     (if d = m_modifierDepth s \<and> l = n then {} else m_loopScopedVariables s d l)"
  by (simp_all add: endVisitLoop_def Let_def)

lemma leaveWhile_fields [simp]:
  "m_breakTags (leaveWhile n s) = tl (m_breakTags s)"
  "m_continueTags (leaveWhile n s) = tl (m_continueTags s)"
  "m_modifierDepth (leaveWhile n s) = m_modifierDepth s"
  "m_loops (leaveWhile n s) = tl (m_loops s)"
  "m_loopScopedVariables (leaveWhile n s) d l =
     (if d = m_modifierDepth s \<and> l = n then {} else m_loopScopedVariables s d l)"
  by (simp_all add: leaveWhile_def Let_def)

lemma leaveFor_fields [simp]:
  "m_breakTags (leaveFor n t i s) = tl (m_breakTags s)"
  "m_continueTags (leaveFor n t i s) = tl (m_continueTags s)"
  "m_modifierDepth (leaveFor n t i s) = m_modifierDepth s"
  "m_loops (leaveFor n t i s) = tl (m_loops s)"
  "m_loopScopedVariables (leaveFor n t i s) d l =
     (if d = m_modifierDepth s \<and> l = n then {} else m_loopScopedVariables s d l)"
  by (simp_all add: leaveFor_def Let_def)

lemma visitBreakContinue_Inr:
  "visitBreakContinue b s = Inr s' \<Longrightarrow>
     m_loops s' = m_loops s \<and> m_breakTags s' = m_breakTags s \<and>
     m_continueTags s' = m_continueTags s \<and> m_modifierDepth s' = m_modifierDepth s \<and>
     m_loopScopedVariables s' = m_loopScopedVariables s"
  by (auto simp: visitBreakContinue_def split: list.splits sum.splits)

subsection \<open>A statement leaves the frame as it found it\<close>

lemma visit_frame:
  "visit sc st s = Inr s' \<Longrightarrow>
     m_loops s' = m_loops s \<and> m_breakTags s' = m_breakTags s \<and>
     m_continueTags s' = m_continueTags s \<and> m_modifierDepth s' = m_modifierDepth s"
  and visitStatements_frame:
  "visitStatements sc sts s = Inr s' \<Longrightarrow>
     m_loops s' = m_loops s \<and> m_breakTags s' = m_breakTags s \<and>
     m_continueTags s' = m_continueTags s \<and> m_modifierDepth s' = m_modifierDepth s"
proof (induction sc st s and sc sts s arbitrary: s' and s' rule: visit_visitStatements.induct)
  case (1 scope n statements s)
  from "1.prems" obtain s1 where a: "visitStatements n statements s = Inr s1"
    and b: "s' = popBlockScopedVariables n s1"
    by (auto split: sum.splits)
  from "1.IH"[OF a] show ?case by (simp add: b)
next
  case (2 scope condition trueBody s)
  from "2.prems" obtain s1 where a: "visit scope trueBody (enterIf condition s) = Inr s1"
    and b: "s' = appendItem (TAG (next_tag s)) s1"
    by (auto split: sum.splits)
  from "2.IH"[OF a] show ?case by (simp add: b)
next
  case (3 scope condition trueBody falseBody s)
  from "3.prems" obtain s1 s2 where a: "visit scope trueBody (enterIfElse condition s) = Inr s1"
    and a2: "visit scope falseBody (enterElse s s1) = Inr s2"
    and b: "s' = appendItem (TAG (Suc (next_tag s))) s2"
    by (auto split: sum.splits)
  from "3.IH"(1)[OF a] "3.IH"(2)[OF a a2] show ?case by (simp add: b)
next
  case (4 scope n condition body s)
  from "4.prems" obtain s1 where a: "visit scope body (enterWhile n condition s) = Inr s1"
    and b: "s' = leaveWhile n s1"
    by (auto split: sum.splits)
  from "4.IH"[OF a] show ?case by (simp add: b)
next
  case (5 scope n condition increment body s)
  from "5.prems" obtain s1 where a: "visit n body (enterFor n condition s) = Inr s1"
    and b: "s' = leaveFor n (fst (forTags s)) increment s1"
    by (auto split: sum.splits)
  from "5.IH"[OF a] show ?case by (simp add: b)
next
  case (6 scope n init condition increment body s)
  from "6.prems" obtain s0 s1 where a0: "visit n init s = Inr s0"
    and a: "visit n body (enterFor n condition s0) = Inr s1"
    and b: "s' = leaveFor n (fst (forTags s0)) increment s1"
    by (auto split: sum.splits)
  from "6.IH"(1)[OF a0] "6.IH"(2)[OF a0 a] show ?case by (simp add: b)
next
  case (7 scope s)
  then show ?case by (simp add: visitBreakContinue_Inr)
next
  case (8 scope s)
  then show ?case by (simp add: visitBreakContinue_Inr)
next
  case (9 scope decl s)
  then show ?case by auto
next
  case (10 scope decl "value" s)
  then show ?case by auto
next
  case (11 scope e s)
  then show ?case by auto
next
  case (12 scope s)
  then show ?case by simp
next
  case (13 scope st statements s)
  from "13.prems" obtain s1 where a: "visit scope st s = Inr s1"
    and a2: "visitStatements scope statements s1 = Inr s'"
    by (auto split: sum.splits)
  from "13.IH"(1)[OF a] "13.IH"(2)[OF a a2] show ?case by simp
qed

subsection \<open>The loop records grow by the locals that a statement declares\<close>





subsection \<open>Break and continue in a loop\<close>



subsection \<open>The tracked stack height and the scope records\<close>

lemma stack_height_appendItem [simp]:
  "stack_height (appendItem i s) = stack_height s + deposit i"
  by (simp add: appendItem_def)

lemma stack_height_appendItems [simp]:
  "stack_height (appendItems is s) = stack_height s + sum_list (map deposit is)"
  by (induction "is" arbitrary: s) simp_all

lemma sum_list_replicate_int [simp]: "sum_list (replicate k (c::int)) = int k * c"
  by (simp add: sum_list_replicate)

lemma stack_height_simps [simp]:
  "stack_height (compileExpression e k s) = stack_height s + int k"
  "stack_height (addScopedVariable sc v s) = stack_height s"
  "stack_height (popAndJump k t s) = stack_height s"
  "stack_height (enterIf c s) = stack_height s"
  "stack_height (enterIfElse c s) = stack_height s"
  "stack_height (enterElse s0 s) = stack_height s"
  "stack_height (enterWhile n c s) = stack_height s"
  "stack_height (enterFor n c s) = stack_height s"
  "stack_height (endVisitLoop n s) = stack_height s"
  "stack_height (leaveWhile n s) = stack_height s"
  by (simp_all add: compileExpression_def addScopedVariable_def popAndJump_def enterIf_def
      enterIfElse_def enterElse_def enterWhile_def enterFor_def endVisitLoop_def leaveWhile_def
      visitLoop_def newTag_def Let_def)

lemma m_scopedVariables_simps [simp]:
  "m_scopedVariables (enterIf c s) = m_scopedVariables s"
  "m_scopedVariables (enterIfElse c s) = m_scopedVariables s"
  "m_scopedVariables (enterElse s0 s) = m_scopedVariables s"
  "m_scopedVariables (enterWhile n c s) = m_scopedVariables s"
  "m_scopedVariables (enterFor n c s) = m_scopedVariables s"
  "m_scopedVariables (endVisitLoop n s) = m_scopedVariables s"
  "m_scopedVariables (leaveWhile n s) = m_scopedVariables s"
  by (simp_all add: enterIf_def enterIfElse_def enterElse_def enterWhile_def enterFor_def
      endVisitLoop_def leaveWhile_def visitLoop_def newTag_def Let_def)

lemma m_scopedVariables_addScopedVariable [simp]:
  "m_scopedVariables (addScopedVariable sc v s) d n =
     (if d = m_modifierDepth s \<and> n = sc then m_scopedVariables s d n @ [v]
      else m_scopedVariables s d n)"
  by (simp add: addScopedVariable_def Let_def)





subsection \<open>A statement that frees no local leaves its locals on the stack\<close>


subsection \<open>The pops of a break or continue\<close>








subsection \<open>Failures of the statement visitors\<close>

lemma visitBreakContinue_error:
  "visitBreakContinue b s = Inl e \<Longrightarrow> e = FatalInternalError"
  by (auto simp: visitBreakContinue_def stackSizeOfCurrentLoopVariables_def split: list.splits sum.splits)

lemma visitBreakContinue_outside_loop:
  "m_loops s = [] \<Longrightarrow> visitBreakContinue b s = Inl FatalInternalError"
  by (auto simp: visitBreakContinue_def stackSizeOfCurrentLoopVariables_def split: list.splits)

lemma visit_error:
  "visit sc st s = Inl e \<Longrightarrow> e = FatalInternalError"
  and visitStatements_error:
  "visitStatements sc sts s = Inl e \<Longrightarrow> e = FatalInternalError"
proof (induction sc st s and sc sts s rule: visit_visitStatements.induct)
  case (1 scope n statements s)
  then show ?case by (auto split: sum.splits)
next
  case (2 scope condition trueBody s)
  then show ?case by (auto split: sum.splits)
next
  case (3 scope condition trueBody falseBody s)
  then show ?case by (auto split: sum.splits)
next
  case (4 scope n condition body s)
  then show ?case by (auto split: sum.splits)
next
  case (5 scope n condition increment body s)
  then show ?case by (auto split: sum.splits)
next
  case (6 scope n init condition increment body s)
  then show ?case by (auto split: sum.splits)
next
  case (7 scope s)
  then show ?case by (simp add: visitBreakContinue_error)
next
  case (8 scope s)
  then show ?case by (simp add: visitBreakContinue_error)
next
  case (9 scope decl s)
  then show ?case by simp
next
  case (10 scope decl "value" s)
  then show ?case by simp
next
  case (11 scope e s)
  then show ?case by simp
next
  case (12 scope s)
  then show ?case by simp
next
  case (13 scope st statements s)
  then show ?case by (auto split: sum.splits)
qed

lemma visit_breakOutsideLoop:
  "breakOutsideLoop st \<Longrightarrow> m_loops s = [] \<Longrightarrow> visit sc st s = Inl FatalInternalError"
  and visitStatements_breakOutsideLoop:
  "breakOutsideLoopStatements sts \<Longrightarrow> m_loops s = [] \<Longrightarrow>
     visitStatements sc sts s = Inl FatalInternalError"
proof (induction sc st s and sc sts s rule: visit_visitStatements.induct)
  case (1 scope n statements s)
  then show ?case by simp
next
  case (2 scope condition trueBody s)
  then show ?case by simp
next
  case (3 scope condition trueBody falseBody s)
  show ?case
  proof (cases "visit scope trueBody (enterIfElse condition s)")
    case (Inl e)
    with visit_error[OF Inl] show ?thesis by simp
  next
    case (Inr s1)
    with "3.IH"(1) "3.prems" have nb: "\<not> breakOutsideLoop trueBody" by auto
    from visit_frame[OF Inr] "3.prems"(2) have "m_loops (enterElse s s1) = []" by simp
    with "3.IH"(2)[OF Inr] nb "3.prems"(1) Inr show ?thesis by simp
  qed
next
  case (4 scope n condition body s)
  then show ?case by simp
next
  case (5 scope n condition increment body s)
  then show ?case by simp
next
  case (6 scope n init condition increment body s)
  then show ?case by simp
next
  case (7 scope s)
  then show ?case by (simp add: visitBreakContinue_outside_loop)
next
  case (8 scope s)
  then show ?case by (simp add: visitBreakContinue_outside_loop)
next
  case (9 scope decl s)
  then show ?case by simp
next
  case (10 scope decl "value" s)
  then show ?case by simp
next
  case (11 scope e s)
  then show ?case by simp
next
  case (12 scope s)
  then show ?case by simp
next
  case (13 scope st statements s)
  show ?case
  proof (cases "visit scope st s")
    case (Inl e)
    with visit_error[OF Inl] show ?thesis by simp
  next
    case (Inr s1)
    with "13.IH"(1) "13.prems" have nb: "\<not> breakOutsideLoop st" by auto
    from visit_frame[OF Inr] "13.prems"(2) have "m_loops s1 = []" by simp
    with "13.IH"(2)[OF Inr] nb "13.prems"(1) Inr show ?thesis by simp
  qed
qed

lemma visitFunction_error: "visitFunction f s = Inl e \<Longrightarrow> e = FatalInternalError"
  unfolding visitFunction_def by (rule visit_error)

lemma visitFunction_breakOutsideLoop:
  "breakOutsideLoop (function_body f) \<Longrightarrow> visitFunction f s = Inl FatalInternalError"
  unfolding visitFunction_def by (rule visit_breakOutsideLoop) simp_all

text \<open>
  C7. When the body of some function of the contract holds a \<open>break\<close> or \<open>continue\<close> that
  no loop encloses, lowering the functions of the contract yields no code: the result is
  the fatal internal error, whatever the other functions are and wherever in the body the
  statement stands. It is neither a success nor a front-end diagnostic.
\<close>

theorem break_outside_loop_is_fatal:
  assumes "f \<in> set fs" and "breakOutsideLoop (function_body f)"
  shows "compileFunctions fs s = Inl FatalInternalError"
  using assms(1)
proof (induction fs arbitrary: s)
  case Nil
  then show ?case by simp
next
  case (Cons g fs)
  show ?case
  proof (cases "visitFunction g s")
    case (Inl e)
    with visitFunction_error[OF Inl] show ?thesis by simp
  next
    case (Inr s1)
    with visitFunction_breakOutsideLoop[OF assms(2), of s] have "f \<noteq> g" by auto
    with Cons.prems have "f \<in> set fs" by simp
    from Cons.IH[OF this] Inr show ?thesis by simp
  qed
qed

theorem break_outside_loop_is_fatal_witness:
  "FunctionDefinition 3 (Block 4 [IfStatement (Expression 7 1) (Block 5 [Continue]) None])
     \<in> set [FunctionDefinition 1 (Block 2 [ExpressionStatement (Expression 6 1)]),
             FunctionDefinition 3 (Block 4 [IfStatement (Expression 7 1) (Block 5 [Continue]) None])]
   \<and> breakOutsideLoop (function_body
       (FunctionDefinition 3 (Block 4 [IfStatement (Expression 7 1) (Block 5 [Continue]) None])))
   \<and> compileFunctions
       [FunctionDefinition 1 (Block 2 [ExpressionStatement (Expression 6 1)]),
        FunctionDefinition 3 (Block 4 [IfStatement (Expression 7 1) (Block 5 [Continue]) None])]
       freshState = Inl FatalInternalError
   \<and> (\<exists>s'. compileFunctions
       [FunctionDefinition 1 (Block 2 [ExpressionStatement (Expression 6 1)])] freshState = Inr s')"
proof -
  let ?f = "FunctionDefinition 3 (Block 4 [IfStatement (Expression 7 1) (Block 5 [Continue]) None])"
  let ?g = "FunctionDefinition 1 (Block 2 [ExpressionStatement (Expression 6 1)])"
  have m: "?f \<in> set [?g, ?f]" by simp
  have b: "breakOutsideLoop (function_body ?f)" by simp
  have ok: "\<exists>s'. compileFunctions [?g] freshState = Inr s'"
    by (simp add: visitFunction_def)
  from break_outside_loop_is_fatal[OF m b, of freshState] m b ok show ?thesis
    by (intro conjI)
qed

end
